theory Spec2Isabelle
  imports Complex_Main "HOL-Library.Log_Nat"
begin

section \<open>JavaScript numbers\<close>

text \<open>
  The server computes with JavaScript numbers, which are IEEE 754 binary64 values.
  A number is modelled by the rational it denotes exactly; every arithmetic result is
  rounded to the nearest binary64 value, ties to the even significand. Only finite
  values of the normal range occur in the server (all of them lie between 0 and 118),
  so subnormals, infinities and NaN are not modelled.
\<close>

type_synonym number = rat

text \<open>\<open>ilog2 x\<close> is the integer \<open>e\<close> with \<open>2^e \<le> x < 2^(e+1)\<close>, for \<open>x > 0\<close>.\<close>

definition ilog2 :: "rat \<Rightarrow> int" where
  "ilog2 x =
     (let (p, q) = quotient_of x;
          d = bitlen p - bitlen q
      in if 2 powi d \<le> x then d else d - 1)"

definition round_half_even :: "rat \<Rightarrow> int" where
  "round_half_even x =
     (let f = \<lfloor>x\<rfloor>;
          r = x - of_int f
      in if r < 1 / 2 then f
         else if 1 / 2 < r then f + 1
         else if even f then f else f + 1)"

text \<open>
  Rounding of an exact result to binary64: scale the value so that its integer part
  has 53 bits, round that to an integer, scale back.
\<close>

definition binary64 :: "rat \<Rightarrow> number" where
  "binary64 x =
     (if x = 0 then 0
      else let e = ilog2 \<bar>x\<bar> - 52
           in of_int (round_half_even (x / 2 powi e)) * 2 powi e)"

definition js_add :: "number \<Rightarrow> number \<Rightarrow> number" where
  "js_add x y = binary64 (x + y)"

definition js_mul :: "number \<Rightarrow> number \<Rightarrow> number" where
  "js_mul x y = binary64 (x * y)"

text \<open>
  \<open>x.toFixed(2)\<close> for \<open>0 \<le> x < 10^21\<close>: the integer \<open>n\<close> for which \<open>n / 100 - x\<close> is as
  close to zero as possible, the larger one if there are two; the result is the decimal
  string of \<open>n / 100\<close> with two fraction digits. The model keeps \<open>n\<close>.
\<close>

definition toFixed2 :: "number \<Rightarrow> int" where
  "toFixed2 x = \<lfloor>x * 100 + 1 / 2\<rfloor>"

text \<open>\<open>Number(s)\<close> of the decimal string with value \<open>n / 100\<close>: the nearest binary64.\<close>

definition Number_of_fixed2 :: "int \<Rightarrow> number" where
  "Number_of_fixed2 n = binary64 (of_int n / 100)"

section \<open>The nozzle records\<close>

text \<open>
  The status letters of the controller: \<open>'L'\<close> (Livre) is \<open>Free\<close>, \<open>'A'\<close> (Abastecendo)
  is \<open>Authorized\<close>, \<open>'B'\<close> (Bloqueado) is \<open>Blocked\<close>, \<open>'E'\<close> (Espera) is \<open>Waiting\<close>,
  \<open>'P'\<close> (Pronto) is \<open>Ready\<close>, \<open>'F'\<close> (Falha) is \<open>Failed\<close>, \<open>'C'\<close> (Concluiu) is
  \<open>Completed\<close> and \<open>' '\<close> is \<open>Unconfigured\<close>. The server keeps the letter in a
  string field and only ever assigns \<open>'L'\<close>, \<open>'P'\<close>, \<open>'A'\<close>, \<open>'C'\<close> and \<open>'B'\<close> to it;
  the type is the union \<open>NozzleStatus\<close> that the dashboard declares for the field.
\<close>

datatype NozzleStatus =
  Free | Authorized | Blocked | Waiting | Ready | Failed | Completed | Unconfigured

record FuelingData =
  volume :: number
  total_cost :: number
  price :: number

text \<open>Field \<open>id\<close> of the source is \<open>nozzle_id\<close>, field \<open>total\<close> is \<open>total_cost\<close>.\<close>

record Nozzle =
  nozzle_id :: string
  status :: NozzleStatus
  currentFueling :: "FuelingData option"

subsection \<open>Identifiers\<close>

definition digit_char :: "nat \<Rightarrow> char" where
  "digit_char d = char_of (of_char CHR ''0'' + d)"

text \<open>\<open>n.toString()\<close> for a non-negative integer: its decimal digits.\<close>

fun toString :: "nat \<Rightarrow> string" where
  "toString n =
     (if n < 10 then [digit_char n]
      else toString (n div 10) @ [digit_char (n mod 10)])"

declare toString.simps [simp del]

text \<open>\<open>s.padStart(len, c)\<close> with a one-character filler.\<close>

definition padStart :: "nat \<Rightarrow> char \<Rightarrow> string \<Rightarrow> string" where
  "padStart len c s = replicate (len - length s) c @ s"

definition mk_nozzle :: "nat \<Rightarrow> Nozzle" where
  "mk_nozzle i =
     \<lparr>nozzle_id = padStart 2 CHR ''0'' (toString (i + 1)),
      status = Free,
      currentFueling = None\<rparr>"

section \<open>The engine: nozzles and pending timers\<close>

text \<open>
  Every timer callback closes over the nozzle object found by the command that
  scheduled it; the array of nozzles is never restructured, so the object is
  identified by its index. \<open>AuthTimeout\<close> is the 2000 ms one-shot set by AUTHORIZE,
  \<open>FuelInterval\<close> the 500 ms interval, \<open>ResetTimeout\<close> the 3000 ms one-shot set on
  completion.
\<close>

datatype timer = AuthTimeout nat | FuelInterval nat | ResetTimeout nat

record engine =
  nozzles :: "Nozzle list"
  timers :: "timer list"

definition init :: engine where
  "init = \<lparr>nozzles = map mk_nozzle [0..<48], timers = []\<rparr>"

text \<open>\<open>xs.find(p)\<close> returns the first element that satisfies \<open>p\<close>; here, its index.\<close>

fun findIndex :: "('a \<Rightarrow> bool) \<Rightarrow> 'a list \<Rightarrow> nat option" where
  "findIndex p [] = None"
| "findIndex p (x # xs) =
     (if p x then Some 0 else map_option Suc (findIndex p xs))"

text \<open>
  \<open>modify i f\<close> is an assignment to fields of the nozzle object at index \<open>i\<close>;
  \<open>schedule\<close> is \<open>setTimeout\<close> or \<open>setInterval\<close>; \<open>cancel\<close> removes a timer from the
  pending ones, when a one-shot timer has expired or at \<open>clearInterval\<close>.
\<close>

definition modify :: "nat \<Rightarrow> (Nozzle \<Rightarrow> Nozzle) \<Rightarrow> engine \<Rightarrow> engine" where
  "modify i f s = s\<lparr>nozzles := (nozzles s)[i := f (nozzles s ! i)]\<rparr>"

definition schedule :: "timer \<Rightarrow> engine \<Rightarrow> engine" where
  "schedule t s = s\<lparr>timers := timers s @ [t]\<rparr>"

definition cancel :: "timer \<Rightarrow> engine \<Rightarrow> engine" where
  "cancel t s = s\<lparr>timers := remove1 t (timers s)\<rparr>"

subsection \<open>GET /api/status\<close>

definition apiStatus :: "engine \<Rightarrow> Nozzle list" where
  "apiStatus s = nozzles s"

subsection \<open>POST /api/command\<close>

text \<open>
  The request carries the two fields \<open>nozzleId\<close> and \<open>command\<close> of the JSON body. The
  answer is 404 with an error message (\<open>NotFound\<close>) or 200 with \<open>success: true\<close> and the
  nozzle record. The lookup compares with \<open>===\<close>, so a field that is not a string
  behaves as a string that matches nothing. The handler of \<open>server.ts\<close> wraps its body
  in \<open>try\<close>/\<open>catch\<close> and answers 500 from the \<open>catch\<close>; no statement of the body throws once
  the two fields have been read, so that answer is not a result of the function below.
\<close>

datatype response = NotFound | Success Nozzle

definition apiCommand :: "string \<Rightarrow> string \<Rightarrow> engine \<Rightarrow> response \<times> engine" where
  "apiCommand nozzleId command s =
     (case findIndex (\<lambda>n. nozzle_id n = nozzleId) (nozzles s) of
        None \<Rightarrow> (NotFound, s)
      | Some i \<Rightarrow>
          (let s' =
             (if command = ''AUTHORIZE'' then
                (if status (nozzles s ! i) = Waiting \<or> status (nozzles s ! i) = Blocked
                 then schedule (AuthTimeout i) (modify i (\<lambda>n. n\<lparr>status := Ready\<rparr>) s)
                 else s)
              else if command = ''BLOCK'' then modify i (\<lambda>n. n\<lparr>status := Blocked\<rparr>) s
              else if command = ''FREE'' then modify i (\<lambda>n. n\<lparr>status := Free\<rparr>) s
              else s)
           in (Success (nozzles s' ! i), s')))"

subsection \<open>Timer callbacks\<close>

text \<open>The callback of the 2000 ms timeout set by AUTHORIZE.\<close>

definition authCallback :: "nat \<Rightarrow> engine \<Rightarrow> engine" where
  "authCallback i s =
     (if status (nozzles s ! i) = Ready
      then schedule (FuelInterval i)
             (modify i (\<lambda>n. n\<lparr>status := Authorized,
                 currentFueling :=
                   Some \<lparr>volume = 0, total_cost = 0, price = binary64 (589 / 100)\<rparr>\<rparr>) s)
      else s)"

text \<open>The callback of the 3000 ms timeout set on completion.\<close>

definition resetCallback :: "nat \<Rightarrow> engine \<Rightarrow> engine" where
  "resetCallback i s = modify i (\<lambda>n. n\<lparr>status := Free, currentFueling := None\<rparr>) s"

text \<open>One tick of the 500 ms interval.\<close>

definition tick :: "FuelingData \<Rightarrow> FuelingData" where
  "tick f =
     (let v = js_add (volume f) (1 / 2)
      in f\<lparr>volume := v, total_cost := Number_of_fixed2 (toFixed2 (js_mul v (price f)))\<rparr>)"

definition intervalCallback :: "nat \<Rightarrow> engine \<Rightarrow> engine" where
  "intervalCallback i s =
     (if status (nozzles s ! i) \<noteq> Authorized then cancel (FuelInterval i) s
      else case currentFueling (nozzles s ! i) of
             None \<Rightarrow> s
           | Some f \<Rightarrow>
               (let f' = tick f;
                    s1 = modify i (\<lambda>n. n\<lparr>currentFueling := Some f'\<rparr>) s
                in if 20 \<le> volume f'
                   then cancel (FuelInterval i)
                          (schedule (ResetTimeout i)
                             (modify i (\<lambda>n. n\<lparr>status := Completed\<rparr>) s1))
                   else s1))"

text \<open>
  A pending timer expires: a one-shot timer leaves the pending list and runs its
  callback, an interval runs its callback and stays pending until the callback clears
  it. A timer that is not pending does not run.
\<close>

definition expire :: "timer \<Rightarrow> engine \<Rightarrow> engine" where
  "expire t s =
     (if t \<notin> set (timers s) then s
      else case t of
             AuthTimeout i \<Rightarrow> authCallback i (cancel t s)
           | FuelInterval i \<Rightarrow> intervalCallback i s
           | ResetTimeout i \<Rightarrow> resetCallback i (cancel t s))"

subsection \<open>Histories\<close>

text \<open>
  The event loop runs one request or one timer callback at a time. An event is a
  command request or the expiry of a pending timer; the order in which pending timers
  expire is left open, so every interleaving the event loop can produce is a history.
\<close>

datatype event = Command string string | Expire timer

fun step :: "event \<Rightarrow> engine \<Rightarrow> engine" where
  "step (Command nozzleId command) s = snd (apiCommand nozzleId command s)"
| "step (Expire t) s = expire t s"

fun run :: "event list \<Rightarrow> engine \<Rightarrow> engine" where
  "run [] s = s"
| "run (e # es) s = run es (step e s)"

section \<open>Auxiliary notions for the statements\<close>

text \<open>The record written when fueling starts.\<close>

definition fresh_fueling :: FuelingData where
  "fresh_fueling = \<lparr>volume = 0, total_cost = 0, price = binary64 (589 / 100)\<rparr>"

text \<open>
  What holds of every nozzle record in every reachable state: a nozzle that is
  \<open>Authorized\<close> or \<open>Completed\<close> has a fueling record, and a fueling record carries the
  configured price, a volume that is a whole number of half litres up to 20 (below 20
  while the nozzle is \<open>Authorized\<close>) and the total computed from them.
\<close>

definition nozzle_inv :: "Nozzle \<Rightarrow> bool" where
  "nozzle_inv n =
     (case currentFueling n of
        None \<Rightarrow> status n \<noteq> Authorized \<and> status n \<noteq> Completed
      | Some f \<Rightarrow>
          price f = binary64 (589 / 100) \<and>
          total_cost f = Number_of_fixed2 (toFixed2 (js_mul (volume f) (price f))) \<and>
          (\<exists>k\<le>40. volume f = of_nat k / 2 \<and> (status n = Authorized \<longrightarrow> k < 40)))"




text \<open>
  A fueling episode of nozzle \<open>i\<close> starts when its authorization timeout expires and
  finds the nozzle \<open>Ready\<close>: that is where the fueling record is written anew. A
  history stays within the episode when none of its events starts one.
\<close>

definition starts_episode :: "nat \<Rightarrow> event \<Rightarrow> engine \<Rightarrow> bool" where
  "starts_episode i e s =
     (e = Expire (AuthTimeout i) \<and> AuthTimeout i \<in> set (timers s)
      \<and> status (nozzles s ! i) = Ready)"

fun same_episode :: "nat \<Rightarrow> event list \<Rightarrow> engine \<Rightarrow> bool" where
  "same_episode i [] s = True"
| "same_episode i (e # es) s = (\<not> starts_episode i e s \<and> same_episode i es (step e s))"

text \<open>
  An event \<open>advances\<close> nozzle \<open>i\<close> when it is a tick of a pending fueling interval of
  the nozzle that passes both tests of the callback: the nozzle is \<open>Authorized\<close> and
  has a fueling record. \<open>ticks\<close> counts these events along a history.
\<close>

definition advances :: "nat \<Rightarrow> event \<Rightarrow> engine \<Rightarrow> bool" where
  "advances i e s =
     (e = Expire (FuelInterval i) \<and> FuelInterval i \<in> set (timers s)
      \<and> status (nozzles s ! i) = Authorized \<and> currentFueling (nozzles s ! i) \<noteq> None)"

fun ticks :: "nat \<Rightarrow> event list \<Rightarrow> engine \<Rightarrow> nat" where
  "ticks i [] s = 0"
| "ticks i (e # es) s = (if advances i e s then 1 else 0) + ticks i es (step e s)"

section \<open>The number model rounds to nearest\<close>

text \<open>
  The result of \<open>binary64\<close> has a significand of at most 53 bits and differs from the
  exact value by at most half a unit in the last place.
\<close>

lemma bitlen_powi:
  assumes "0 < p"
  shows "2 powi (bitlen p - 1) \<le> (of_int p :: rat)" and "(of_int p :: rat) < 2 powi bitlen p"
proof -
  from bitlen_bounds [OF assms]
  have a: "2 ^ nat (bitlen p - 1) \<le> p" and b: "p < 2 ^ nat (bitlen p)" by simp_all
  have pos: "1 \<le> bitlen p" using assms by (simp add: bitlen_alt_def)
  have "(of_int (2 ^ nat (bitlen p - 1)) :: rat) \<le> of_int p"
    using a by (simp only: of_int_le_iff)
  then show "2 powi (bitlen p - 1) \<le> (of_int p :: rat)"
    using pos by (simp add: power_int_def)
  have "(of_int p :: rat) < of_int (2 ^ nat (bitlen p))"
    using b by (simp only: of_int_less_iff)
  then show "(of_int p :: rat) < 2 powi bitlen p"
    using pos by (simp add: power_int_def)
qed

lemma ilog2_bounds:
  assumes "0 < x"
  shows "2 powi ilog2 x \<le> x \<and> x < 2 powi (ilog2 x + 1)"
proof -
  obtain p q where pq: "quotient_of x = (p, q)" by (cases "quotient_of x")
  have q: "0 < q" using pq by (rule quotient_of_denom_pos)
  have x: "x = of_int p / of_int q" using pq by (rule quotient_of_div)
  have p: "0 < p" using assms q x by (simp add: zero_less_divide_iff)
  define d where "d = bitlen p - bitlen q"
  note bp = bitlen_powi [OF p] and bq = bitlen_powi [OF q]
  have qpos: "(0::rat) < of_int q" using q by simp
  have "x < 2 powi bitlen p / of_int q"
    unfolding x using bp(2) qpos by (rule divide_strict_right_mono)
  also have "\<dots> \<le> 2 powi bitlen p / 2 powi (bitlen q - 1)"
    using bq(1) qpos by (intro divide_left_mono mult_pos_pos) simp_all
  also have "\<dots> = 2 powi (bitlen p - (bitlen q - 1))"
    by (rule power_int_diff [symmetric]) simp
  also have "bitlen p - (bitlen q - 1) = d + 1"
    unfolding d_def by simp
  finally have up: "x < 2 powi (d + 1)" .
  have "d - 1 = bitlen p - 1 - bitlen q"
    unfolding d_def by simp
  then have "(2::rat) powi (d - 1) = 2 powi (bitlen p - 1 - bitlen q)"
    by (simp only:)
  also have "\<dots> = 2 powi (bitlen p - 1) / 2 powi bitlen q"
    by (rule power_int_diff) simp
  also have "\<dots> \<le> of_int p / 2 powi bitlen q"
    using bp(1) by (intro divide_right_mono) simp_all
  also have "\<dots> \<le> of_int p / of_int q"
    using bq(2) p qpos by (intro divide_left_mono) simp_all
  finally have lo: "2 powi (d - 1) \<le> x" unfolding x .
  show ?thesis
  proof (cases "2 powi d \<le> x")
    case True
    with up show ?thesis by (simp add: ilog2_def pq d_def)
  next
    case False
    with lo show ?thesis by (simp add: ilog2_def pq d_def)
  qed
qed

lemma round_half_even_nearest: "\<bar>of_int (round_half_even y) - y\<bar> \<le> 1 / 2"
proof -
  have "of_int \<lfloor>y\<rfloor> \<le> y" "y < of_int \<lfloor>y\<rfloor> + 1" by linarith+
  then show ?thesis
    by (auto simp: round_half_even_def Let_def abs_le_iff)
qed

lemma binary64_error:
  "\<bar>binary64 x - x\<bar> \<le> \<bar>x\<bar> / 2 ^ 53"
proof (cases "x = 0")
  case True
  then show ?thesis by (simp add: binary64_def)
next
  case False
  define e where "e = ilog2 \<bar>x\<bar> - 52"
  define m where "m = round_half_even (x / 2 powi e)"
  have b: "binary64 x = of_int m * 2 powi e"
    using False by (simp add: binary64_def Let_def e_def m_def)
  have pe: "(0::rat) < 2 powi e" by simp
  have "\<bar>of_int m - x / 2 powi e\<bar> \<le> 1 / 2"
    unfolding m_def by (rule round_half_even_nearest)
  then have "\<bar>of_int m - x / 2 powi e\<bar> * 2 powi e \<le> 1 / 2 * 2 powi e"
    using pe by (intro mult_right_mono) simp_all
  moreover have "\<bar>of_int m - x / 2 powi e\<bar> * 2 powi e = \<bar>of_int m * 2 powi e - x\<bar>"
  proof -
    have "\<bar>of_int m - x / 2 powi e\<bar> * 2 powi e = \<bar>(of_int m - x / 2 powi e) * 2 powi e\<bar>"
      using pe by (simp add: abs_mult)
    also have "(of_int m - x / 2 powi e) * 2 powi e = of_int m * 2 powi e - x"
      using pe by (simp add: field_simps)
    finally show ?thesis .
  qed
  ultimately have err: "\<bar>binary64 x - x\<bar> \<le> 2 powi e / 2"
    unfolding b by simp
  have "0 < \<bar>x\<bar>" using False by simp
  then have "2 powi ilog2 \<bar>x\<bar> \<le> \<bar>x\<bar>" using ilog2_bounds by blast
  moreover have "ilog2 \<bar>x\<bar> = e + 52"
    unfolding e_def by simp
  moreover have "(2::rat) powi (e + 52) = 2 powi e * 2 powi 52"
    by (rule power_int_add) simp
  ultimately have "2 powi e * 2 ^ 52 \<le> \<bar>x\<bar>" by simp
  then have "2 powi e / 2 \<le> \<bar>x\<bar> / 2 ^ 53"
    by (simp add: field_simps)
  with err show ?thesis by linarith
qed

lemma binary64_significand:
  assumes "x \<noteq> 0"
  shows "\<exists>m e. binary64 x = of_int m * 2 powi e \<and> \<bar>m\<bar> \<le> 2 ^ 53"
proof -
  define e where "e = ilog2 \<bar>x\<bar> - 52"
  define y where "y = x / 2 powi e"
  define m where "m = round_half_even y"
  have b: "binary64 x = of_int m * 2 powi e"
    using assms by (simp add: binary64_def Let_def e_def m_def y_def)
  have "0 < \<bar>x\<bar>" using assms by simp
  then have "\<bar>x\<bar> < 2 powi (ilog2 \<bar>x\<bar> + 1)" using ilog2_bounds by blast
  moreover have "ilog2 \<bar>x\<bar> + 1 = e + 53"
    unfolding e_def by simp
  moreover have "(2::rat) powi (e + 53) = 2 powi e * 2 powi 53"
    by (rule power_int_add) simp
  ultimately have "\<bar>x\<bar> < 2 powi e * 2 ^ 53" by simp
  then have "\<bar>x\<bar> / 2 powi e < 2 ^ 53"
    by (simp add: field_simps)
  then have y: "\<bar>y\<bar> < 2 ^ 53"
    unfolding y_def by (simp add: abs_divide)
  have "\<bar>of_int m - y\<bar> \<le> 1 / 2"
    unfolding m_def by (rule round_half_even_nearest)
  with y have "\<bar>rat_of_int m\<bar> < 2 ^ 53 + 1" by linarith
  then have "rat_of_int \<bar>m\<bar> < rat_of_int (2 ^ 53 + 1)" by simp
  then have "\<bar>m\<bar> < 2 ^ 53 + 1" by (simp only: of_int_less_iff)
  then have "\<bar>m\<bar> \<le> 2 ^ 53" by simp
  with b show ?thesis by blast
qed

section \<open>Basic facts about the engine operations\<close>

lemma nozzles_schedule [simp]: "nozzles (schedule t s) = nozzles s"
  by (simp add: schedule_def)

lemma nozzles_cancel [simp]: "nozzles (cancel t s) = nozzles s"
  by (simp add: cancel_def)

lemma timers_modify [simp]: "timers (modify i f s) = timers s"
  by (simp add: modify_def)

lemma length_modify [simp]: "length (nozzles (modify i f s)) = length (nozzles s)"
  by (simp add: modify_def)

lemma nth_modify:
  "i < length (nozzles s) \<Longrightarrow>
   nozzles (modify i f s) ! j = (if j = i then f (nozzles s ! i) else nozzles s ! j)"
  by (simp add: modify_def)

lemma ids_modify:
  assumes "nozzle_id (f (nozzles s ! i)) = nozzle_id (nozzles s ! i)"
  shows "map nozzle_id (nozzles (modify i f s)) = map nozzle_id (nozzles s)"
proof (cases "i < length (nozzles s)")
  case True
  then show ?thesis
    using assms by (simp add: modify_def map_update list_update_same_conv)
next
  case False
  then show ?thesis by (simp add: modify_def list_update_beyond)
qed

lemma findIndex_Some:
  "findIndex p xs = Some i \<Longrightarrow> i < length xs \<and> p (xs ! i)"
  by (induction xs arbitrary: i) (auto split: if_splits)

lemma findIndex_None: "findIndex p xs = None \<longleftrightarrow> (\<forall>x\<in>set xs. \<not> p x)"
  by (induction xs) auto

section \<open>The invariant of the nozzle records\<close>

lemma all_modify:
  assumes "list_all Q (nozzles s)"
    and "i < length (nozzles s) \<Longrightarrow> Q (f (nozzles s ! i))"
  shows "list_all Q (nozzles (modify i f s))"
proof (cases "i < length (nozzles s)")
  case True
  have "set ((nozzles s)[i := f (nozzles s ! i)]) \<subseteq> insert (f (nozzles s ! i)) (set (nozzles s))"
    by (rule set_update_subset_insert)
  with assms True show ?thesis by (auto simp: modify_def list_all_iff)
next
  case False
  with assms show ?thesis by (simp add: modify_def list_update_beyond)
qed

lemma all_nth: "list_all Q xs \<Longrightarrow> i < length xs \<Longrightarrow> Q (xs ! i)"
  by (simp add: list_all_length)

lemma nozzle_inv_idle:
  "nozzle_inv n \<Longrightarrow> st \<noteq> Authorized \<Longrightarrow> st \<noteq> Completed \<Longrightarrow> nozzle_inv (n\<lparr>status := st\<rparr>)"
  by (auto simp: nozzle_inv_def split: option.splits)

lemma toFixed2_zero: "toFixed2 0 = 0"
  by code_simp

lemma fresh_total: "Number_of_fixed2 (toFixed2 (js_mul 0 p)) = 0"
  by (simp add: js_mul_def binary64_def toFixed2_zero Number_of_fixed2_def)

lemma nozzle_inv_fresh:
  "nozzle_inv (n\<lparr>status := Authorized, currentFueling := Some fresh_fueling\<rparr>)"
  by (simp add: nozzle_inv_def fresh_fueling_def fresh_total)

lemma nozzle_inv_reset: "nozzle_inv (n\<lparr>status := Free, currentFueling := None\<rparr>)"
  by (simp add: nozzle_inv_def)

lemma js_add_half: "k < 40 \<Longrightarrow> js_add (of_nat k / 2) (1 / 2) = of_nat (Suc k) / 2"
proof -
  have "\<forall>k\<in>set [0..<40]. js_add (of_nat k / 2) (1 / 2) = of_nat (Suc k) / 2"
    by code_simp
  then show "k < 40 \<Longrightarrow> js_add (of_nat k / 2) (1 / 2) = of_nat (Suc k) / 2"
    by simp
qed

lemma price_tick [simp]: "price (tick f) = price f"
  by (simp add: tick_def Let_def)

lemma volume_tick: "volume (tick f) = js_add (volume f) (1 / 2)"
  by (simp add: tick_def Let_def)

lemma total_tick:
  "total_cost (tick f) = Number_of_fixed2 (toFixed2 (js_mul (volume (tick f)) (price (tick f))))"
  by (simp add: tick_def Let_def)

lemma nozzle_inv_tick:
  assumes "nozzle_inv n" "status n = Authorized" "currentFueling n = Some f"
  shows "nozzle_inv (if 20 \<le> volume (tick f)
                     then n\<lparr>currentFueling := Some (tick f), status := Completed\<rparr>
                     else n\<lparr>currentFueling := Some (tick f)\<rparr>)"
proof -
  from assms obtain k where k: "k < 40" "volume f = of_nat k / 2"
    and p: "price f = binary64 (589 / 100)"
    by (auto simp: nozzle_inv_def)
  have v: "volume (tick f) = of_nat (Suc k) / 2"
    unfolding volume_tick k(2) using k(1) by (rule js_add_half)
  have pt: "price (tick f) = binary64 (589 / 100)"
    using p by simp
  show ?thesis
  proof (cases "20 \<le> volume (tick f)")
    case True
    have "\<exists>k'\<le>40. volume (tick f) = of_nat k' / 2 \<and> (Completed = Authorized \<longrightarrow> k' < 40)"
      using k(1) v by (intro exI [of _ "Suc k"]) simp
    with True pt total_tick [of f] show ?thesis
      by (simp add: nozzle_inv_def)
  next
    case False
    then have "Suc k < 40" using v by simp
    then have "\<exists>k'\<le>40. volume (tick f) = of_nat k' / 2 \<and> (status n = Authorized \<longrightarrow> k' < 40)"
      using v by (intro exI [of _ "Suc k"]) simp
    with False pt total_tick [of f] show ?thesis
      by (simp add: nozzle_inv_def)
  qed
qed

lemma inv_apiCommand:
  assumes "list_all nozzle_inv (nozzles s)"
  shows "list_all nozzle_inv (nozzles (snd (apiCommand nozzleId command s)))"
proof (cases "findIndex (\<lambda>n. nozzle_id n = nozzleId) (nozzles s)")
  case None
  then show ?thesis using assms by (simp add: apiCommand_def)
next
  case (Some i)
  have idle: "list_all nozzle_inv (nozzles (modify i (\<lambda>n. n\<lparr>status := st\<rparr>) s))"
    if "st \<noteq> Authorized" "st \<noteq> Completed" for st
    using assms
  proof (rule all_modify)
    assume "i < length (nozzles s)"
    with assms have "nozzle_inv (nozzles s ! i)" by (rule all_nth)
    then show "nozzle_inv ((nozzles s ! i)\<lparr>status := st\<rparr>)"
      using that by (rule nozzle_inv_idle)
  qed
  show ?thesis
    using Some assms idle [of Ready] idle [of Blocked] idle [of Free]
    by (simp add: apiCommand_def Let_def)
qed

lemma inv_authCallback:
  assumes "list_all nozzle_inv (nozzles s)"
  shows "list_all nozzle_inv (nozzles (authCallback i s))"
proof (cases "status (nozzles s ! i) = Ready")
  case True
  have "list_all nozzle_inv
          (nozzles (modify i (\<lambda>n. n\<lparr>status := Authorized, currentFueling := Some fresh_fueling\<rparr>) s))"
    using assms by (rule all_modify) (rule nozzle_inv_fresh)
  with True show ?thesis by (simp add: authCallback_def fresh_fueling_def)
next
  case False
  with assms show ?thesis by (simp add: authCallback_def)
qed

lemma inv_resetCallback:
  assumes "list_all nozzle_inv (nozzles s)"
  shows "list_all nozzle_inv (nozzles (resetCallback i s))"
  unfolding resetCallback_def
  using assms by (rule all_modify) (rule nozzle_inv_reset)

lemma nozzles_intervalCallback_idle:
  "status (nozzles s ! i) \<noteq> Authorized \<or> currentFueling (nozzles s ! i) = None \<Longrightarrow>
   nozzles (intervalCallback i s) = nozzles s"
  by (auto simp: intervalCallback_def)

lemma nozzles_intervalCallback_tick:
  assumes "status (nozzles s ! i) = Authorized" "currentFueling (nozzles s ! i) = Some f"
  shows "nozzles (intervalCallback i s) =
         nozzles (modify i (\<lambda>n. if 20 \<le> volume (tick f)
                     then n\<lparr>currentFueling := Some (tick f), status := Completed\<rparr>
                     else n\<lparr>currentFueling := Some (tick f)\<rparr>) s)"
proof (cases "i < length (nozzles s)")
  case True
  then show ?thesis
    using assms by (simp add: intervalCallback_def Let_def modify_def)
next
  case False
  then show ?thesis
    using assms by (simp add: intervalCallback_def Let_def modify_def list_update_beyond)
qed

lemma inv_intervalCallback:
  assumes "list_all nozzle_inv (nozzles s)"
  shows "list_all nozzle_inv (nozzles (intervalCallback i s))"
proof (cases "status (nozzles s ! i) = Authorized")
  case False
  then show ?thesis using assms by (simp add: nozzles_intervalCallback_idle)
next
  case True
  show ?thesis
  proof (cases "currentFueling (nozzles s ! i)")
    case None
    then show ?thesis using assms by (simp add: nozzles_intervalCallback_idle)
  next
    case (Some f)
    show ?thesis
      unfolding nozzles_intervalCallback_tick [OF True Some]
      using assms
    proof (rule all_modify)
      assume "i < length (nozzles s)"
      with assms have "nozzle_inv (nozzles s ! i)" by (rule all_nth)
      then show "nozzle_inv (if 20 \<le> volume (tick f)
                     then (nozzles s ! i)\<lparr>currentFueling := Some (tick f), status := Completed\<rparr>
                     else (nozzles s ! i)\<lparr>currentFueling := Some (tick f)\<rparr>)"
        using True Some by (rule nozzle_inv_tick)
    qed
  qed
qed

lemma inv_expire:
  assumes "list_all nozzle_inv (nozzles s)"
  shows "list_all nozzle_inv (nozzles (expire t s))"
proof (cases "t \<in> set (timers s)")
  case False
  then show ?thesis using assms by (simp add: expire_def)
next
  case True
  have c: "list_all nozzle_inv (nozzles (cancel t s))" using assms by simp
  show ?thesis
  proof (cases t)
    case (AuthTimeout i)
    with True inv_authCallback [OF c] show ?thesis by (simp add: expire_def)
  next
    case (FuelInterval i)
    with True inv_intervalCallback [OF assms] show ?thesis by (simp add: expire_def)
  next
    case (ResetTimeout i)
    with True inv_resetCallback [OF c] show ?thesis by (simp add: expire_def)
  qed
qed

lemma inv_step:
  "list_all nozzle_inv (nozzles s) \<Longrightarrow> list_all nozzle_inv (nozzles (step e s))"
  by (cases e) (simp_all add: inv_apiCommand inv_expire)

lemma inv_run:
  "list_all nozzle_inv (nozzles s) \<Longrightarrow> list_all nozzle_inv (nozzles (run es s))"
  by (induction es arbitrary: s) (simp_all add: inv_step)

lemma inv_init: "list_all nozzle_inv (nozzles init)"
  by (simp add: init_def list_all_iff mk_nozzle_def nozzle_inv_def)

lemma inv_reachable: "list_all nozzle_inv (nozzles (run es init))"
  using inv_init by (rule inv_run)

section \<open>The collection of nozzles is fixed\<close>

lemma ids_apiCommand:
  "map nozzle_id (nozzles (snd (apiCommand nozzleId command s))) = map nozzle_id (nozzles s)"
  by (simp add: apiCommand_def Let_def ids_modify split: option.splits)

lemma ids_authCallback: "map nozzle_id (nozzles (authCallback i s)) = map nozzle_id (nozzles s)"
  by (simp add: authCallback_def ids_modify)

lemma ids_resetCallback: "map nozzle_id (nozzles (resetCallback i s)) = map nozzle_id (nozzles s)"
  by (simp add: resetCallback_def ids_modify)

lemma ids_intervalCallback:
  "map nozzle_id (nozzles (intervalCallback i s)) = map nozzle_id (nozzles s)"
proof (cases "status (nozzles s ! i) = Authorized")
  case False
  then show ?thesis by (simp add: nozzles_intervalCallback_idle)
next
  case True
  show ?thesis
  proof (cases "currentFueling (nozzles s ! i)")
    case None
    then show ?thesis by (simp add: nozzles_intervalCallback_idle)
  next
    case (Some f)
    show ?thesis
      unfolding nozzles_intervalCallback_tick [OF True Some]
      by (rule ids_modify) simp
  qed
qed

lemma ids_expire: "map nozzle_id (nozzles (expire t s)) = map nozzle_id (nozzles s)"
proof (cases t)
  case (AuthTimeout i)
  then show ?thesis using ids_authCallback [of i "cancel t s"] by (simp add: expire_def)
next
  case (FuelInterval i)
  then show ?thesis using ids_intervalCallback [of i s] by (simp add: expire_def)
next
  case (ResetTimeout i)
  then show ?thesis using ids_resetCallback [of i "cancel t s"] by (simp add: expire_def)
qed

lemma ids_step: "map nozzle_id (nozzles (step e s)) = map nozzle_id (nozzles s)"
  by (cases e) (simp_all add: ids_apiCommand ids_expire)

lemma ids_run: "map nozzle_id (nozzles (run es s)) = map nozzle_id (nozzles s)"
  by (induction es arbitrary: s) (simp_all add: ids_step)

lemma ids_init:
  "map nozzle_id (nozzles init) =
     [''01'', ''02'', ''03'', ''04'', ''05'', ''06'', ''07'', ''08'', ''09'', ''10'', ''11'', ''12'',
      ''13'', ''14'', ''15'', ''16'', ''17'', ''18'', ''19'', ''20'', ''21'', ''22'', ''23'', ''24'',
      ''25'', ''26'', ''27'', ''28'', ''29'', ''30'', ''31'', ''32'', ''33'', ''34'', ''35'', ''36'',
      ''37'', ''38'', ''39'', ''40'', ''41'', ''42'', ''43'', ''44'', ''45'', ''46'', ''47'', ''48'']"
  by code_simp

lemma distinct_ids_init: "distinct (map nozzle_id (nozzles init))"
  unfolding ids_init by simp

lemma length_init: "length (nozzles init) = 48"
  by (simp add: init_def)

lemma length_run: "length (nozzles (run es s)) = length (nozzles s)"
  using ids_run [of es s] by (metis length_map)

text \<open>
  Claim C10. At initialization the collection holds exactly 48 records, with the
  pairwise distinct identifiers "01" to "48" in that order, each \<open>Free\<close> with no
  fueling record; no command and no timer changes an identifier, adds, removes or
  reorders a record: after any event, and after any history from any state, the list of
  identifiers is the one before.
\<close>

theorem nozzle_collection_fixed:
  "map nozzle_id (nozzles init) =
     [''01'', ''02'', ''03'', ''04'', ''05'', ''06'', ''07'', ''08'', ''09'', ''10'', ''11'', ''12'',
      ''13'', ''14'', ''15'', ''16'', ''17'', ''18'', ''19'', ''20'', ''21'', ''22'', ''23'', ''24'',
      ''25'', ''26'', ''27'', ''28'', ''29'', ''30'', ''31'', ''32'', ''33'', ''34'', ''35'', ''36'',
      ''37'', ''38'', ''39'', ''40'', ''41'', ''42'', ''43'', ''44'', ''45'', ''46'', ''47'', ''48'']
   \<and> distinct (map nozzle_id (nozzles init))
   \<and> map status (nozzles init) = replicate 48 Free
   \<and> map currentFueling (nozzles init) = replicate 48 None
   \<and> map nozzle_id (nozzles (step e s)) = map nozzle_id (nozzles s)
   \<and> map nozzle_id (nozzles (run es s)) = map nozzle_id (nozzles s)"
proof -
  have "map status (nozzles init) = replicate 48 Free"
    by (simp add: init_def mk_nozzle_def comp_def map_replicate_const)
  moreover have "map currentFueling (nozzles init) = replicate 48 None"
    by (simp add: init_def mk_nozzle_def comp_def map_replicate_const)
  ultimately show ?thesis
    using ids_init distinct_ids_init ids_step ids_run by blast
qed

text \<open>
  Claim C9. The snapshot reader has no error result: in every reachable state it
  returns the nozzle list of the engine as it is, all 48 records, in the order of the
  identifiers "01" to "48" given at initialization.
\<close>

theorem snapshot_reader_total:
  "apiStatus (run es init) = nozzles (run es init)
   \<and> length (apiStatus (run es init)) = 48
   \<and> map nozzle_id (apiStatus (run es init)) =
       map (\<lambda>i. padStart 2 CHR ''0'' (toString (i + 1))) [0..<48]"
proof -
  have "map nozzle_id (nozzles init) = map (\<lambda>i. padStart 2 CHR ''0'' (toString (i + 1))) [0..<48]"
    by (simp add: init_def mk_nozzle_def comp_def)
  then show ?thesis
    by (simp add: apiStatus_def length_run length_init ids_run)
qed

text \<open>
  Claim C5. For an identifier that matches no nozzle, whatever the command, the
  dispatcher answers \<open>NotFound\<close> and returns the engine unchanged: the same nozzle
  records and the same pending timers. "99" is such an identifier in every reachable
  state.
\<close>

theorem unknown_nozzle_not_found:
  "(nozzleId \<notin> set (map nozzle_id (nozzles s)) \<longrightarrow> apiCommand nozzleId command s = (NotFound, s))
   \<and> apiCommand ''99'' command (run es init) = (NotFound, run es init)"
proof -
  have gen: "apiCommand nid c t = (NotFound, t)" if "nid \<notin> set (map nozzle_id (nozzles t))"
    for nid c t
  proof -
    from that have "findIndex (\<lambda>n. nozzle_id n = nid) (nozzles t) = None"
      by (auto simp: findIndex_None)
    then show ?thesis by (simp add: apiCommand_def)
  qed
  have "''99'' \<notin> set (map nozzle_id (nozzles (run es init)))"
    unfolding ids_run ids_init by simp
  with gen show ?thesis by blast
qed

theorem unknown_nozzle_not_found_witness:
  "''99'' \<notin> set (map nozzle_id (nozzles init))
   \<and> apiCommand ''99'' ''BLOCK'' init = (NotFound, init)
   \<and> apiCommand ''99'' ''AUTHORIZE'' (run [Command ''01'' ''BLOCK''] init)
       = (NotFound, run [Command ''01'' ''BLOCK''] init)"
proof -
  have h: "''99'' \<notin> set (map nozzle_id (nozzles init))"
    unfolding ids_init by simp
  with unknown_nozzle_not_found [of "''99''" init "''BLOCK''" "[]"]
    unknown_nozzle_not_found [of "''99''" init "''AUTHORIZE''" "[Command ''01'' ''BLOCK'']"]
  show ?thesis by blast
qed

section \<open>The effect of an event on the nozzle list\<close>

lemma nth_modify_any:
  "nozzles (modify j f s) ! i =
     (if i = j \<and> j < length (nozzles s) then f (nozzles s ! j) else nozzles s ! i)"
  by (cases "j < length (nozzles s)") (auto simp: modify_def list_update_beyond)

lemma length_step: "length (nozzles (step e s)) = length (nozzles s)"
  using ids_step [of e s] by (metis length_map)


lemma nozzles_authCallback:
  "nozzles (authCallback i s) =
     (if status (nozzles s ! i) = Ready
      then nozzles (modify i (\<lambda>n. n\<lparr>status := Authorized, currentFueling := Some fresh_fueling\<rparr>) s)
      else nozzles s)"
  by (simp add: authCallback_def fresh_fueling_def)

lemma nozzles_expire_auth:
  "nozzles (expire (AuthTimeout i) s) =
     (if AuthTimeout i \<in> set (timers s) \<and> status (nozzles s ! i) = Ready
      then nozzles (modify i (\<lambda>n. n\<lparr>status := Authorized, currentFueling := Some fresh_fueling\<rparr>) s)
      else nozzles s)"
  by (simp add: expire_def nozzles_authCallback modify_def)

lemma nozzles_expire_reset:
  "nozzles (expire (ResetTimeout i) s) =
     (if ResetTimeout i \<in> set (timers s)
      then nozzles (modify i (\<lambda>n. n\<lparr>status := Free, currentFueling := None\<rparr>) s)
      else nozzles s)"
  by (simp add: expire_def resetCallback_def modify_def)

lemma nozzles_expire_interval_idle:
  "status (nozzles s ! i) \<noteq> Authorized \<or> currentFueling (nozzles s ! i) = None \<Longrightarrow>
   nozzles (expire (FuelInterval i) s) = nozzles s"
  by (simp add: expire_def nozzles_intervalCallback_idle)

lemma nozzles_expire_interval_tick:
  assumes "FuelInterval i \<in> set (timers s)"
    and "status (nozzles s ! i) = Authorized" "currentFueling (nozzles s ! i) = Some f"
  shows "nozzles (expire (FuelInterval i) s) =
         nozzles (modify i (\<lambda>n. if 20 \<le> volume (tick f)
                     then n\<lparr>currentFueling := Some (tick f), status := Completed\<rparr>
                     else n\<lparr>currentFueling := Some (tick f)\<rparr>) s)"
  using assms by (simp add: expire_def nozzles_intervalCallback_tick)

lemma nozzles_expire_not_pending: "t \<notin> set (timers s) \<Longrightarrow> expire t s = s"
  by (simp add: expire_def)

lemma nozzles_command:
  "nozzles (snd (apiCommand nozzleId command s)) =
     (case findIndex (\<lambda>n. nozzle_id n = nozzleId) (nozzles s) of
        None \<Rightarrow> nozzles s
      | Some j \<Rightarrow>
          if command = ''AUTHORIZE'' then
            (if status (nozzles s ! j) = Waiting \<or> status (nozzles s ! j) = Blocked
             then nozzles (modify j (\<lambda>n. n\<lparr>status := Ready\<rparr>) s) else nozzles s)
          else if command = ''BLOCK'' then nozzles (modify j (\<lambda>n. n\<lparr>status := Blocked\<rparr>) s)
          else if command = ''FREE'' then nozzles (modify j (\<lambda>n. n\<lparr>status := Free\<rparr>) s)
          else nozzles s)"
  by (simp add: apiCommand_def Let_def split: option.splits)



section \<open>Evaluating concrete histories\<close>

lemma init_explicit:
  "init =
     \<lparr>nozzles = map (\<lambda>x. \<lparr>nozzle_id = x, status = Free, currentFueling = None\<rparr>)
        [''01'', ''02'', ''03'', ''04'', ''05'', ''06'', ''07'', ''08'', ''09'', ''10'', ''11'', ''12'', ''13'', ''14'', ''15'', ''16'', ''17'', ''18'', ''19'', ''20'', ''21'', ''22'', ''23'', ''24'', ''25'', ''26'', ''27'', ''28'', ''29'', ''30'', ''31'', ''32'', ''33'', ''34'', ''35'', ''36'', ''37'', ''38'', ''39'', ''40'', ''41'', ''42'', ''43'', ''44'', ''45'', ''46'', ''47'', ''48''],
      timers = []\<rparr>"
proof -
  have "nozzles init =
        map (\<lambda>x. \<lparr>nozzle_id = x, status = Free, currentFueling = None\<rparr>)
          (map nozzle_id (nozzles init))"
    by (simp add: init_def mk_nozzle_def comp_def)
  moreover have "timers init = []"
    by (simp add: init_def)
  ultimately show ?thesis
    unfolding ids_init by (cases init) simp
qed

lemma tick_fresh:
  "tick \<lparr>volume = 0, total_cost = 0, price = binary64 (589 / 100)\<rparr> =
     \<lparr>volume = 1 / 2, total_cost = binary64 (294 / 100), price = binary64 (589 / 100)\<rparr>"
  by code_simp

lemmas eval = init_explicit apiCommand_def Let_def modify_def schedule_def cancel_def
  expire_def authCallback_def intervalCallback_def resetCallback_def tick_fresh apiStatus_def

section \<open>Commands\<close>



text \<open>
  Claim C3. FREE assigns the status and nothing else. Nozzle "01" is blocked,
  authorized, promoted by the authorization timeout, advanced by one tick of the
  interval and then freed: its status is \<open>Free\<close> and the fueling record of the
  interrupted episode is still in place, where the claim has it cleared.
\<close>

theorem free_keeps_fueling_record:
  "status (apiStatus (run [Command ''01'' ''BLOCK'', Command ''01'' ''AUTHORIZE'',
        Expire (AuthTimeout 0), Expire (FuelInterval 0), Command ''01'' ''FREE''] init) ! 0) = Free
   \<and> currentFueling (apiStatus (run [Command ''01'' ''BLOCK'', Command ''01'' ''AUTHORIZE'',
        Expire (AuthTimeout 0), Expire (FuelInterval 0), Command ''01'' ''FREE''] init) ! 0)
      = Some \<lparr>volume = 1 / 2, total_cost = binary64 (294 / 100), price = binary64 (589 / 100)\<rparr>"
  by (simp add: eval)

text \<open>
  Claim C4. For an existing nozzle, AUTHORIZE moves the nozzle to \<open>Ready\<close> when its
  status is \<open>Waiting\<close> or \<open>Blocked\<close>: only the status of that record changes, its
  fueling field stays as it was, and the authorization timeout is scheduled. In every
  other status the engine is returned as it was. In both cases the dispatcher answers
  success with the record of the nozzle.
\<close>

theorem authorize_policy:
  assumes "findIndex (\<lambda>n. nozzle_id n = nozzleId) (nozzles s) = Some i"
  shows "(status (nozzles s ! i) = Waiting \<or> status (nozzles s ! i) = Blocked \<longrightarrow>
            fst (apiCommand nozzleId ''AUTHORIZE'' s) =
              Success (nozzles (snd (apiCommand nozzleId ''AUTHORIZE'' s)) ! i)
          \<and> nozzles (snd (apiCommand nozzleId ''AUTHORIZE'' s)) =
              (nozzles s)[i := (nozzles s ! i)\<lparr>status := Ready\<rparr>]
          \<and> status (nozzles (snd (apiCommand nozzleId ''AUTHORIZE'' s)) ! i) = Ready
          \<and> currentFueling (nozzles (snd (apiCommand nozzleId ''AUTHORIZE'' s)) ! i) =
              currentFueling (nozzles s ! i)
          \<and> timers (snd (apiCommand nozzleId ''AUTHORIZE'' s)) = timers s @ [AuthTimeout i])
       \<and> (status (nozzles s ! i) \<noteq> Waiting \<and> status (nozzles s ! i) \<noteq> Blocked \<longrightarrow>
            apiCommand nozzleId ''AUTHORIZE'' s = (Success (nozzles s ! i), s))"
proof -
  have "i < length (nozzles s)" using findIndex_Some [OF assms] by simp
  with assms show ?thesis
    by (simp add: apiCommand_def Let_def modify_def schedule_def)
qed

theorem authorize_policy_witness:
  "findIndex (\<lambda>n. nozzle_id n = ''05'') (nozzles (run [Command ''05'' ''BLOCK''] init)) = Some 4
   \<and> status (nozzles (run [Command ''05'' ''BLOCK''] init) ! 4) = Blocked
   \<and> status (nozzles (snd (apiCommand ''05'' ''AUTHORIZE''
         (run [Command ''05'' ''BLOCK''] init))) ! 4) = Ready
   \<and> timers (snd (apiCommand ''05'' ''AUTHORIZE'' (run [Command ''05'' ''BLOCK''] init)))
       = [AuthTimeout 4]
   \<and> findIndex (\<lambda>n. nozzle_id n = ''05'')
       (nozzles (run [Command ''05'' ''BLOCK'', Command ''05'' ''AUTHORIZE'',
          Expire (AuthTimeout 4)] init)) = Some 4
   \<and> status (nozzles (run [Command ''05'' ''BLOCK'', Command ''05'' ''AUTHORIZE'',
          Expire (AuthTimeout 4)] init) ! 4) = Authorized
   \<and> apiCommand ''05'' ''AUTHORIZE''
         (run [Command ''05'' ''BLOCK'', Command ''05'' ''AUTHORIZE'', Expire (AuthTimeout 4)] init)
       = (Success (nozzles (run [Command ''05'' ''BLOCK'', Command ''05'' ''AUTHORIZE'',
            Expire (AuthTimeout 4)] init) ! 4),
          run [Command ''05'' ''BLOCK'', Command ''05'' ''AUTHORIZE'', Expire (AuthTimeout 4)] init)"
proof -
  let ?b = "run [Command ''05'' ''BLOCK''] init"
  let ?a = "run [Command ''05'' ''BLOCK'', Command ''05'' ''AUTHORIZE'', Expire (AuthTimeout 4)] init"
  have b1: "findIndex (\<lambda>n. nozzle_id n = ''05'') (nozzles ?b) = Some 4"
    and b2: "status (nozzles ?b ! 4) = Blocked"
    and b3: "timers ?b = []"
    by (simp_all add: eval)
  have a1: "findIndex (\<lambda>n. nozzle_id n = ''05'') (nozzles ?a) = Some 4"
    and a2: "status (nozzles ?a ! 4) = Authorized"
    by (simp_all add: eval)
  from authorize_policy [OF b1] b2
  have r: "status (nozzles (snd (apiCommand ''05'' ''AUTHORIZE'' ?b)) ! 4) = Ready"
    and t: "timers (snd (apiCommand ''05'' ''AUTHORIZE'' ?b)) = timers ?b @ [AuthTimeout 4]"
    by blast+
  have t': "timers (snd (apiCommand ''05'' ''AUTHORIZE'' ?b)) = [AuthTimeout 4]"
    unfolding t b3 by simp
  from a2 have "status (nozzles ?a ! 4) \<noteq> Waiting \<and> status (nozzles ?a ! 4) \<noteq> Blocked"
    by simp
  with authorize_policy [OF a1]
  have "apiCommand ''05'' ''AUTHORIZE'' ?a = (Success (nozzles ?a ! 4), ?a)"
    by blast
  with r t' show ?thesis using b1 b2 a1 a2 by blast
qed

section \<open>Timers\<close>

lemma run_append: "run (xs @ ys) s = run ys (run xs s)"
  by (induction xs arbitrary: s) simp_all

lemma findIndex_map: "findIndex (\<lambda>n. g n = x) xs = findIndex (\<lambda>y. y = x) (map g xs)"
  by (induction xs) simp_all

lemma findIndex_first_reachable:
  "findIndex (\<lambda>n. nozzle_id n = ''01'') (nozzles (run es init)) = Some 0"
  by (subst findIndex_map) (simp add: ids_run ids_init)

lemma length_reachable: "length (nozzles (run es init)) = 48"
  by (simp add: length_run length_init)

lemma timers_expire_interval_tick:
  assumes "FuelInterval i \<in> set (timers s)"
    and "status (nozzles s ! i) = Authorized" "currentFueling (nozzles s ! i) = Some f"
  shows "if 20 \<le> volume (tick f)
         then ResetTimeout i \<in> set (timers (expire (FuelInterval i) s))
         else FuelInterval i \<in> set (timers (expire (FuelInterval i) s))"
  using assms by (simp add: expire_def intervalCallback_def Let_def cancel_def schedule_def)

text \<open>
  From a volume of \<open>k\<close> half litres, \<open>40 - k\<close> ticks of the interval complete the
  fueling and leave the reset timeout pending.
\<close>

lemma ticks_complete:
  assumes "i < length (nozzles s)" "FuelInterval i \<in> set (timers s)"
    and "status (nozzles s ! i) = Authorized" "currentFueling (nozzles s ! i) = Some f"
    and "volume f = of_nat k / 2" "k + m = 40" "0 < m"
  shows "status (nozzles (run (replicate m (Expire (FuelInterval i))) s) ! i) = Completed
       \<and> ResetTimeout i \<in> set (timers (run (replicate m (Expire (FuelInterval i))) s))"
  using assms
proof (induction m arbitrary: s f k)
  case 0
  then show ?case by simp
next
  case (Suc m)
  let ?s = "expire (FuelInterval i) s"
  have k: "k < 40" using Suc.prems(6) by simp
  have v: "volume (tick f) = of_nat (Suc k) / 2"
    unfolding volume_tick Suc.prems(5) using k by (rule js_add_half)
  have n: "nozzles ?s = nozzles (modify i (\<lambda>n. if 20 \<le> volume (tick f)
                     then n\<lparr>currentFueling := Some (tick f), status := Completed\<rparr>
                     else n\<lparr>currentFueling := Some (tick f)\<rparr>) s)"
    using Suc.prems(2,3,4) by (rule nozzles_expire_interval_tick)
  note t = timers_expire_interval_tick [OF Suc.prems(2,3,4)]
  show ?case
  proof (cases "m = 0")
    case True
    with Suc.prems(6) have "Suc k = 40" by simp
    with v have "20 \<le> volume (tick f)" by simp
    with n t True Suc.prems(1) show ?thesis
      by (simp add: nth_modify_any)
  next
    case False
    with Suc.prems(6) have "Suc k < 40" by simp
    with v have nv: "\<not> 20 \<le> volume (tick f)" by simp
    have "status (nozzles (run (replicate m (Expire (FuelInterval i))) ?s) ! i) = Completed
       \<and> ResetTimeout i \<in> set (timers (run (replicate m (Expire (FuelInterval i))) ?s))"
    proof (rule Suc.IH)
      show "i < length (nozzles ?s)" using Suc.prems(1) n by simp
      show "FuelInterval i \<in> set (timers ?s)" using t nv by simp
      show "status (nozzles ?s ! i) = Authorized"
        using n nv Suc.prems(1,3) by (simp add: nth_modify_any)
      show "currentFueling (nozzles ?s ! i) = Some (tick f)"
        using n nv Suc.prems(1) by (simp add: nth_modify_any)
      show "volume (tick f) = of_nat (Suc k) / 2" by (rule v)
      show "Suc k + m = 40" using Suc.prems(6) by simp
      show "0 < m" using False by simp
    qed
    then show ?thesis by simp
  qed
qed

lemma block_effect:
  assumes "findIndex (\<lambda>n. nozzle_id n = nozzleId) (nozzles s) = Some i"
  shows "status (nozzles (step (Command nozzleId ''BLOCK'') s) ! i) = Blocked
       \<and> timers (step (Command nozzleId ''BLOCK'') s) = timers s"
proof -
  have "i < length (nozzles s)" using findIndex_Some [OF assms] by simp
  with assms show ?thesis
    by (simp add: apiCommand_def Let_def nth_modify_any)
qed

lemma reset_effect:
  assumes "ResetTimeout i \<in> set (timers s)" "i < length (nozzles s)"
  shows "status (nozzles (step (Expire (ResetTimeout i)) s) ! i) = Free
       \<and> currentFueling (nozzles (step (Expire (ResetTimeout i)) s) ! i) = None"
  using assms by (simp add: nozzles_expire_reset nth_modify_any)

text \<open>
  Claim C2. The callbacks of the authorization timeout and of the interval test the
  status first; the callback of the reset timeout does not. Nozzle "01" is blocked,
  authorized and promoted, and 40 ticks complete the fueling, which schedules the reset
  timeout. BLOCK then changes the status to \<open>Blocked\<close>, away from the status
  \<open>Completed\<close> in which the timeout was scheduled, and the timeout stays pending. When
  it expires it sets the blocked nozzle to \<open>Free\<close> and clears its fueling record, where
  the claim has it do nothing.
\<close>

theorem reset_timeout_not_guarded:
  "status (apiStatus (run ([Command ''01'' ''BLOCK'', Command ''01'' ''AUTHORIZE'',
        Expire (AuthTimeout 0)] @ replicate 40 (Expire (FuelInterval 0))) init) ! 0) = Completed
   \<and> status (apiStatus (run ([Command ''01'' ''BLOCK'', Command ''01'' ''AUTHORIZE'',
        Expire (AuthTimeout 0)] @ replicate 40 (Expire (FuelInterval 0))
        @ [Command ''01'' ''BLOCK'']) init) ! 0) = Blocked
   \<and> ResetTimeout 0 \<in> set (timers (run ([Command ''01'' ''BLOCK'', Command ''01'' ''AUTHORIZE'',
        Expire (AuthTimeout 0)] @ replicate 40 (Expire (FuelInterval 0))
        @ [Command ''01'' ''BLOCK'']) init))
   \<and> status (apiStatus (run ([Command ''01'' ''BLOCK'', Command ''01'' ''AUTHORIZE'',
        Expire (AuthTimeout 0)] @ replicate 40 (Expire (FuelInterval 0))
        @ [Command ''01'' ''BLOCK'', Expire (ResetTimeout 0)]) init) ! 0) = Free
   \<and> currentFueling (apiStatus (run ([Command ''01'' ''BLOCK'', Command ''01'' ''AUTHORIZE'',
        Expire (AuthTimeout 0)] @ replicate 40 (Expire (FuelInterval 0))
        @ [Command ''01'' ''BLOCK'', Expire (ResetTimeout 0)]) init) ! 0) = None"
proof -
  let ?p = "[Command ''01'' ''BLOCK'', Command ''01'' ''AUTHORIZE'', Expire (AuthTimeout 0)]"
  let ?t = "replicate 40 (Expire (FuelInterval 0))"
  let ?s3 = "run ?p init"
  let ?s43 = "run (?p @ ?t) init"
  let ?s44 = "run (?p @ ?t @ [Command ''01'' ''BLOCK'']) init"
  let ?s45 = "run (?p @ ?t @ [Command ''01'' ''BLOCK'', Expire (ResetTimeout 0)]) init"
  have e43: "?s43 = run ?t ?s3"
    by (simp only: run_append)
  have e44: "?s44 = step (Command ''01'' ''BLOCK'') ?s43"
    by (simp only: run_append run.simps)
  have e45: "?s45 = step (Expire (ResetTimeout 0)) ?s44"
    by (simp only: run_append run.simps)
  have len: "0 < length (nozzles ?s3)" "0 < length (nozzles ?s44)"
    unfolding length_reachable by simp_all
  have "status (nozzles (run ?t ?s3) ! 0) = Completed
        \<and> ResetTimeout 0 \<in> set (timers (run ?t ?s3))"
  proof (rule ticks_complete)
    show "0 < length (nozzles ?s3)" by (rule len)
    show "FuelInterval 0 \<in> set (timers ?s3)" by (simp add: eval)
    show "status (nozzles ?s3 ! 0) = Authorized" by (simp add: eval)
    show "currentFueling (nozzles ?s3 ! 0) = Some fresh_fueling"
      by (simp add: eval fresh_fueling_def)
    show "volume fresh_fueling = of_nat 0 / 2" by (simp add: fresh_fueling_def)
    show "0 + 40 = (40::nat)" by simp
    show "0 < (40::nat)" by simp
  qed
  then have c: "status (nozzles ?s43 ! 0) = Completed" and r: "ResetTimeout 0 \<in> set (timers ?s43)"
    unfolding e43 by blast+
  have f: "findIndex (\<lambda>n. nozzle_id n = ''01'') (nozzles ?s43) = Some 0"
    by (rule findIndex_first_reachable)
  have b: "status (nozzles ?s44 ! 0) = Blocked" and r44: "ResetTimeout 0 \<in> set (timers ?s44)"
    unfolding e44 using block_effect [OF f] r by simp_all
  have fr: "status (nozzles ?s45 ! 0) = Free \<and> currentFueling (nozzles ?s45 ! 0) = None"
    unfolding e45 using r44 len(2) by (rule reset_effect)
  show ?thesis
    unfolding apiStatus_def using c b r44 fr by blast
qed

section \<open>Blocking a nozzle\<close>







section \<open>Fueling episodes\<close>

lemma fueling_step:
  assumes i: "i < length (nozzles s)" and e: "\<not> starts_episode i e s"
  shows "currentFueling (nozzles (step e s) ! i) = None
       \<or> currentFueling (nozzles (step e s) ! i) = currentFueling (nozzles s ! i)
       \<or> (\<exists>f. status (nozzles s ! i) = Authorized \<and> currentFueling (nozzles s ! i) = Some f
              \<and> currentFueling (nozzles (step e s) ! i) = Some (tick f))"
proof (cases e)
  case (Command nid c)
  have "currentFueling (nozzles (step e s) ! i) = currentFueling (nozzles s ! i)"
    unfolding Command
    by (simp add: nozzles_command nth_modify_any split: option.splits)
  then show ?thesis by (rule disjI2 [OF disjI1])
next
  case (Expire t)
  show ?thesis
  proof (cases t)
    case (AuthTimeout j)
    with Expire e have "j \<noteq> i \<or> AuthTimeout j \<notin> set (timers s) \<or> status (nozzles s ! j) \<noteq> Ready"
      by (auto simp: starts_episode_def)
    with Expire AuthTimeout show ?thesis
      by (auto simp: nozzles_expire_auth nth_modify_any)
  next
    case (FuelInterval j)
    show ?thesis
    proof (cases "FuelInterval j \<in> set (timers s) \<and> status (nozzles s ! j) = Authorized
                  \<and> currentFueling (nozzles s ! j) \<noteq> None")
      case True
      then obtain f where f: "currentFueling (nozzles s ! j) = Some f" by auto
      with True Expire FuelInterval i show ?thesis
        by (simp add: nozzles_expire_interval_tick nth_modify_any)
    next
      case False
      then have "nozzles (expire (FuelInterval j) s) = nozzles s"
        by (auto simp: nozzles_expire_interval_idle nozzles_expire_not_pending)
      with Expire FuelInterval show ?thesis by simp
    qed
  next
    case (ResetTimeout j)
    with Expire show ?thesis
      by (simp add: nozzles_expire_reset nth_modify_any)
  qed
qed

lemma fueling_none_run:
  assumes "i < length (nozzles s)" "currentFueling (nozzles s ! i) = None" "same_episode i es s"
  shows "currentFueling (nozzles (run es s) ! i) = None"
  using assms
proof (induction es arbitrary: s)
  case Nil
  then show ?case by simp
next
  case (Cons e es)
  from Cons.prems(3) have e: "\<not> starts_episode i e s" and es: "same_episode i es (step e s)"
    by simp_all
  from fueling_step [OF Cons.prems(1) e] Cons.prems(2)
  have "currentFueling (nozzles (step e s) ! i) = None" by auto
  moreover have "i < length (nozzles (step e s))"
    using Cons.prems(1) by (simp only: length_step)
  ultimately have "currentFueling (nozzles (run es (step e s)) ! i) = None"
    using es by (intro Cons.IH)
  then show ?case by simp
qed

lemma tick_exact:
  assumes "nozzle_inv n" "status n = Authorized" "currentFueling n = Some f"
  shows "volume (tick f) = volume f + 1 / 2"
proof -
  from assms obtain k where k: "k < 40" "volume f = of_nat k / 2"
    by (auto simp: nozzle_inv_def)
  have "volume (tick f) = of_nat (Suc k) / 2"
    unfolding volume_tick k(2) using k(1) by (rule js_add_half)
  also have "\<dots> = of_nat k / 2 + 1 / 2" by (simp add: field_simps)
  finally show ?thesis unfolding k(2) .
qed

lemma fueling_step_tick:
  assumes "i < length (nozzles s)" "advances i e s"
  shows "currentFueling (nozzles (step e s) ! i) = map_option tick (currentFueling (nozzles s ! i))"
proof -
  from assms(2) obtain f where e: "e = Expire (FuelInterval i)"
    and p: "FuelInterval i \<in> set (timers s)" and a: "status (nozzles s ! i) = Authorized"
    and f: "currentFueling (nozzles s ! i) = Some f"
    by (auto simp: advances_def)
  show ?thesis
    unfolding e using assms(1) f
    by (simp add: nozzles_expire_interval_tick [OF p a f] nth_modify_any)
qed

lemma fueling_step_other:
  assumes i: "i < length (nozzles s)" and e: "\<not> starts_episode i e s" and n: "\<not> advances i e s"
  shows "currentFueling (nozzles (step e s) ! i) = None
       \<or> currentFueling (nozzles (step e s) ! i) = currentFueling (nozzles s ! i)"
proof (cases e)
  case (Command nid c)
  have "currentFueling (nozzles (step e s) ! i) = currentFueling (nozzles s ! i)"
    unfolding Command
    by (simp add: nozzles_command nth_modify_any split: option.splits)
  then show ?thesis by (rule disjI2)
next
  case (Expire t)
  show ?thesis
  proof (cases t)
    case (AuthTimeout j)
    with Expire e have "j \<noteq> i \<or> AuthTimeout j \<notin> set (timers s) \<or> status (nozzles s ! j) \<noteq> Ready"
      by (auto simp: starts_episode_def)
    with Expire AuthTimeout show ?thesis
      by (auto simp: nozzles_expire_auth nth_modify_any)
  next
    case (FuelInterval j)
    show ?thesis
    proof (cases "FuelInterval j \<in> set (timers s) \<and> status (nozzles s ! j) = Authorized
                  \<and> currentFueling (nozzles s ! j) \<noteq> None")
      case True
      then obtain f where f: "currentFueling (nozzles s ! j) = Some f" by auto
      from True n Expire FuelInterval have "j \<noteq> i" by (auto simp: advances_def)
      with True f Expire FuelInterval i show ?thesis
        by (simp add: nozzles_expire_interval_tick nth_modify_any)
    next
      case False
      then have "nozzles (expire (FuelInterval j) s) = nozzles s"
        by (auto simp: nozzles_expire_interval_idle nozzles_expire_not_pending)
      with Expire FuelInterval show ?thesis by simp
    qed
  next
    case (ResetTimeout j)
    with Expire show ?thesis
      by (simp add: nozzles_expire_reset nth_modify_any)
  qed
qed

lemma ticks_le_length: "ticks i es s \<le> length es"
  by (induction es arbitrary: s) (simp_all add: le_SucI)

lemma fueling_run_ticks:
  assumes "list_all nozzle_inv (nozzles s)" "i < length (nozzles s)" "same_episode i es s"
    and "currentFueling (nozzles s ! i) = Some f"
    and "currentFueling (nozzles (run es s) ! i) = Some f'"
  shows "price f' = price f \<and> volume f' = volume f + of_nat (ticks i es s) / 2"
  using assms
proof (induction es arbitrary: s f)
  case Nil
  then show ?case by simp
next
  case (Cons e es)
  let ?s = "step e s"
  from Cons.prems(3) have e: "\<not> starts_episode i e s" and es: "same_episode i es ?s"
    by simp_all
  have inv: "list_all nozzle_inv (nozzles ?s)" using Cons.prems(1) by (rule inv_step)
  have len: "i < length (nozzles ?s)" using Cons.prems(2) by (simp only: length_step)
  have fin: "currentFueling (nozzles (run es ?s) ! i) = Some f'"
    using Cons.prems(5) by simp
  show ?case
  proof (cases "advances i e s")
    case True
    then have a: "status (nozzles s ! i) = Authorized" by (simp add: advances_def)
    have t: "currentFueling (nozzles ?s ! i) = Some (tick f)"
      using fueling_step_tick [OF Cons.prems(2) True] Cons.prems(4) by simp
    have "nozzle_inv (nozzles s ! i)"
      using Cons.prems(1,2) by (rule all_nth)
    then have v: "volume (tick f) = volume f + 1 / 2"
      using a Cons.prems(4) by (rule tick_exact)
    from Cons.IH [OF inv len es t fin]
    have m: "price f' = price (tick f)"
      "volume f' = volume (tick f) + of_nat (ticks i es ?s) / 2"
      by blast+
    have c: "ticks i (e # es) s = Suc (ticks i es ?s)" using True by simp
    have "volume f' = volume f + of_nat (ticks i (e # es) s) / 2"
      unfolding m(2) v c by (simp add: field_simps)
    moreover have "price f' = price f" using m(1) by simp
    ultimately show ?thesis by blast
  next
    case False
    from fueling_step_other [OF Cons.prems(2) e False] Cons.prems(4)
    consider (none) "currentFueling (nozzles ?s ! i) = None"
      | (same) "currentFueling (nozzles ?s ! i) = Some f"
      by auto
    then show ?thesis
    proof cases
      case none
      with len es have "currentFueling (nozzles (run es ?s) ! i) = None"
        by (intro fueling_none_run)
      with fin show ?thesis by simp
    next
      case same
      have c: "ticks i (e # es) s = ticks i es ?s" using False by simp
      from Cons.IH [OF inv len es same fin] show ?thesis
        unfolding c by blast
    qed
  qed
qed

lemma tick_second:
  "tick \<lparr>volume = 1 / 2, total_cost = t, price = binary64 (589 / 100)\<rparr> =
     \<lparr>volume = 1, total_cost = binary64 (589 / 100), price = binary64 (589 / 100)\<rparr>"
proof -
  have a: "js_add (1 / 2) (1 / 2) = 1"
    by code_simp
  have b: "Number_of_fixed2 (toFixed2 (js_mul 1 (binary64 (589 / 100)))) = binary64 (589 / 100)"
    by code_simp
  show ?thesis by (simp add: tick_def a b)
qed

text \<open>
  Claim C8. Take two samples of nozzle \<open>i\<close> from the snapshot reader, the second any
  number of events after the first, with no new episode started for the nozzle in
  between, and a fueling record in both. The volume of the second is the volume of the
  first plus 0.5 for each tick that advanced the nozzle in between, no more and no
  less, so it has not decreased; the price is the same, the one written at
  authorization. In particular one tick that advances the nozzle replaces the record
  by one with the volume 0.5 higher and the same price.
\<close>

theorem volume_monotone_price_fixed:
  assumes "i < 48" and "same_episode i es' (run es init)"
    and "currentFueling (apiStatus (run es init) ! i) = Some f"
    and "currentFueling (apiStatus (run es' (run es init)) ! i) = Some f'"
  shows "volume f' = volume f + of_nat (ticks i es' (run es init)) / 2
       \<and> ticks i es' (run es init) \<le> length es'
       \<and> volume f \<le> volume f'
       \<and> price f' = price f
       \<and> price f = binary64 (589 / 100)
       \<and> (advances i (Expire (FuelInterval i)) (run es init) \<longrightarrow>
            currentFueling (apiStatus (step (Expire (FuelInterval i)) (run es init)) ! i)
              = Some (tick f)
            \<and> volume (tick f) = volume f + 1 / 2
            \<and> price (tick f) = price f)"
proof -
  let ?s = "run es init"
  have inv: "list_all nozzle_inv (nozzles ?s)" by (rule inv_reachable)
  have len: "i < length (nozzles ?s)"
    using assms(1) by (simp only: length_reachable)
  from fueling_run_ticks [OF inv len assms(2)] assms(3,4)
  have m: "price f' = price f" "volume f' = volume f + of_nat (ticks i es' ?s) / 2"
    unfolding apiStatus_def by blast+
  have le: "volume f \<le> volume f'" unfolding m(2) by simp
  have ni: "nozzle_inv (nozzles ?s ! i)"
    using inv len by (rule all_nth)
  then have p: "price f = binary64 (589 / 100)"
    using assms(3) by (simp add: nozzle_inv_def apiStatus_def)
  have t: "currentFueling (apiStatus (step (Expire (FuelInterval i)) ?s) ! i) = Some (tick f)
            \<and> volume (tick f) = volume f + 1 / 2 \<and> price (tick f) = price f"
    if a: "advances i (Expire (FuelInterval i)) ?s"
  proof -
    have "currentFueling (nozzles (step (Expire (FuelInterval i)) ?s) ! i) = Some (tick f)"
      using fueling_step_tick [OF len a] assms(3) by (simp add: apiStatus_def)
    moreover from a have "status (nozzles ?s ! i) = Authorized" by (simp add: advances_def)
    with ni have "volume (tick f) = volume f + 1 / 2"
      using assms(3) [unfolded apiStatus_def] by (rule tick_exact)
    ultimately show ?thesis by (simp add: apiStatus_def)
  qed
  from m le p t ticks_le_length [of i es' ?s] show ?thesis by blast
qed

theorem volume_monotone_price_fixed_witness:
  "(0::nat) < 48
   \<and> same_episode 0 [Expire (FuelInterval 0), Command ''01'' ''AUTHORIZE'', Expire (FuelInterval 0)]
       (run [Command ''01'' ''BLOCK'', Command ''01'' ''AUTHORIZE'', Expire (AuthTimeout 0)] init)
   \<and> ticks 0 [Expire (FuelInterval 0), Command ''01'' ''AUTHORIZE'', Expire (FuelInterval 0)]
       (run [Command ''01'' ''BLOCK'', Command ''01'' ''AUTHORIZE'', Expire (AuthTimeout 0)] init) = 2
   \<and> advances 0 (Expire (FuelInterval 0))
       (run [Command ''01'' ''BLOCK'', Command ''01'' ''AUTHORIZE'', Expire (AuthTimeout 0)] init)
   \<and> currentFueling (apiStatus
         (run [Command ''01'' ''BLOCK'', Command ''01'' ''AUTHORIZE'', Expire (AuthTimeout 0)] init) ! 0)
       = Some \<lparr>volume = 0, total_cost = 0, price = binary64 (589 / 100)\<rparr>
   \<and> currentFueling (apiStatus
         (run [Expire (FuelInterval 0), Command ''01'' ''AUTHORIZE'', Expire (FuelInterval 0)]
           (run [Command ''01'' ''BLOCK'', Command ''01'' ''AUTHORIZE'', Expire (AuthTimeout 0)] init)) ! 0)
       = Some \<lparr>volume = 1, total_cost = binary64 (589 / 100), price = binary64 (589 / 100)\<rparr>
   \<and> volume \<lparr>volume = 1, total_cost = binary64 (589 / 100), price = binary64 (589 / 100)\<rparr>
       = volume \<lparr>volume = 0, total_cost = 0, price = binary64 (589 / 100)\<rparr> + of_nat 2 / 2
   \<and> volume (tick \<lparr>volume = 0, total_cost = 0, price = binary64 (589 / 100)\<rparr>)
       = volume \<lparr>volume = 0, total_cost = 0, price = binary64 (589 / 100)\<rparr> + 1 / 2"
proof -
  let ?es = "[Command ''01'' ''BLOCK'', Command ''01'' ''AUTHORIZE'', Expire (AuthTimeout 0)]"
  let ?es' = "[Expire (FuelInterval 0), Command ''01'' ''AUTHORIZE'', Expire (FuelInterval 0)]"
  let ?f = "\<lparr>volume = 0, total_cost = 0, price = binary64 (589 / 100)\<rparr>"
  let ?f' = "\<lparr>volume = 1, total_cost = binary64 (589 / 100), price = binary64 (589 / 100)\<rparr>"
  have h1: "(0::nat) < 48" by simp
  have h2: "same_episode 0 ?es' (run ?es init)"
    by (simp add: starts_episode_def)
  have h3: "currentFueling (apiStatus (run ?es init) ! 0) = Some ?f"
    by (simp add: eval)
  have h4: "currentFueling (apiStatus (run ?es' (run ?es init)) ! 0) = Some ?f'"
    by (simp add: eval tick_second)
  have h5: "ticks 0 ?es' (run ?es init) = 2"
    by (simp add: eval tick_second advances_def)
  have h6: "advances 0 (Expire (FuelInterval 0)) (run ?es init)"
    by (simp add: eval advances_def)
  note t = volume_monotone_price_fixed [OF h1 h2 h3 h4]
  from t have "volume ?f' = volume ?f + of_nat (ticks 0 ?es' (run ?es init)) / 2"
    by blast
  then have a: "volume ?f' = volume ?f + of_nat 2 / 2"
    unfolding h5 .
  from t h6 have b: "volume (tick ?f) = volume ?f + 1 / 2"
    by blast
  from a b h1 h2 h3 h4 h5 h6 show ?thesis by blast
qed

section \<open>Fueling records and statuses\<close>











section \<open>The total of a fueling record\<close>

lemma toFixed2_nearest: "\<bar>of_int (toFixed2 x) / 100 - x\<bar> \<le> 1 / 200"
proof -
  define n where "n = toFixed2 x"
  have "of_int n \<le> x * 100 + 1 / 2"
    unfolding n_def toFixed2_def by (rule of_int_floor_le)
  moreover have "x * 100 + 1 / 2 < of_int n + 1"
    unfolding n_def toFixed2_def by linarith
  ultimately have "\<bar>of_int n / 100 - x\<bar> \<le> 1 / 200"
    by linarith
  then show ?thesis by (simp only: n_def)
qed

text \<open>
  Claim C7, as stated, fails at its own example. After the first tick on nozzle "05"
  the volume is 0.5 and the total is the number 2.94, not 2.95: the binary64 number 5.89
  lies below 589/100, so the product with 0.5 lies below 2.945 and \<open>toFixed(2)\<close> rounds
  it down. Rounding the exact product 0.5 * 589/100 gives the 2.95 of the claim.
\<close>

theorem first_tick_total_counterexample:
  "currentFueling (apiStatus (run [Command ''05'' ''BLOCK'', Command ''05'' ''AUTHORIZE'',
        Expire (AuthTimeout 4), Expire (FuelInterval 4)] init) ! 4)
     = Some \<lparr>volume = 1 / 2, total_cost = binary64 (294 / 100), price = binary64 (589 / 100)\<rparr>
   \<and> binary64 (294 / 100) \<noteq> binary64 (295 / 100)
   \<and> binary64 (294 / 100) < 2941 / 1000
   \<and> js_mul (1 / 2) (binary64 (589 / 100)) < 2945 / 1000
   \<and> rat_of_int (toFixed2 (1 / 2 * (589 / 100))) / 100 = 295 / 100"
proof -
  have "currentFueling (apiStatus (run [Command ''05'' ''BLOCK'', Command ''05'' ''AUTHORIZE'',
        Expire (AuthTimeout 4), Expire (FuelInterval 4)] init) ! 4)
     = Some \<lparr>volume = 1 / 2, total_cost = binary64 (294 / 100), price = binary64 (589 / 100)\<rparr>"
    by (simp add: eval)
  moreover have "binary64 (294 / 100) \<noteq> binary64 (295 / 100)"
    by code_simp
  moreover have "binary64 (294 / 100) < 2941 / 1000"
    by code_simp
  moreover have "js_mul (1 / 2) (binary64 (589 / 100)) < 2945 / 1000"
    by code_simp
  moreover have "rat_of_int (toFixed2 (1 / 2 * (589 / 100))) / 100 = 295 / 100"
    by code_simp
  ultimately show ?thesis by blast
qed

text \<open>
  Claim C7, amended. In every reachable state a fueling record has the price 5.89 (as
  a binary64 number) and its total is \<open>Number((volume * price).toFixed(2))\<close>: the
  binary64 product of volume and price, rounded to the nearest hundredth (\<open>toFixed2\<close>
  is within 1/200 of its argument), read back as a binary64 number. When the
  authorization timeout finds the nozzle \<open>Ready\<close> the record is volume 0, total 0,
  price 5.89; the first tick makes it volume 0.5, total 2.94.
\<close>

theorem total_of_binary64_product:
  "(\<forall>n\<in>set (apiStatus (run es init)). \<forall>f. currentFueling n = Some f \<longrightarrow>
       price f = binary64 (589 / 100)
       \<and> total_cost f = Number_of_fixed2 (toFixed2 (js_mul (volume f) (price f))))
   \<and> \<bar>rat_of_int (toFixed2 x) / 100 - x\<bar> \<le> 1 / 200
   \<and> (i < length (nozzles s) \<and> AuthTimeout i \<in> set (timers s) \<and> status (nozzles s ! i) = Ready
        \<longrightarrow> currentFueling (nozzles (expire (AuthTimeout i) s) ! i)
            = Some \<lparr>volume = 0, total_cost = 0, price = binary64 (589 / 100)\<rparr>)
   \<and> tick \<lparr>volume = 0, total_cost = 0, price = binary64 (589 / 100)\<rparr>
       = \<lparr>volume = 1 / 2, total_cost = binary64 (294 / 100), price = binary64 (589 / 100)\<rparr>"
proof -
  have "list_all nozzle_inv (nozzles (run es init))" by (rule inv_reachable)
  then have a: "\<forall>n\<in>set (apiStatus (run es init)). \<forall>f. currentFueling n = Some f \<longrightarrow>
       price f = binary64 (589 / 100)
       \<and> total_cost f = Number_of_fixed2 (toFixed2 (js_mul (volume f) (price f)))"
    by (auto simp: list_all_iff apiStatus_def nozzle_inv_def)
  have b: "currentFueling (nozzles (expire (AuthTimeout i) s) ! i)
            = Some \<lparr>volume = 0, total_cost = 0, price = binary64 (589 / 100)\<rparr>"
    if "i < length (nozzles s)" "AuthTimeout i \<in> set (timers s)" "status (nozzles s ! i) = Ready"
    using that by (simp add: nozzles_expire_auth nth_modify_any fresh_fueling_def)
  from a b toFixed2_nearest tick_fresh show ?thesis by blast
qed

theorem total_of_binary64_product_witness:
  "currentFueling (apiStatus (run [Command ''01'' ''BLOCK'', Command ''01'' ''AUTHORIZE'',
        Expire (AuthTimeout 0), Expire (FuelInterval 0)] init) ! 0)
     = Some \<lparr>volume = 1 / 2, total_cost = binary64 (294 / 100), price = binary64 (589 / 100)\<rparr>
   \<and> binary64 (294 / 100) = Number_of_fixed2 (toFixed2 (js_mul (1 / 2) (binary64 (589 / 100))))
   \<and> AuthTimeout 0 \<in> set (timers (run [Command ''01'' ''BLOCK'', Command ''01'' ''AUTHORIZE''] init))
   \<and> status (nozzles (run [Command ''01'' ''BLOCK'', Command ''01'' ''AUTHORIZE''] init) ! 0) = Ready
   \<and> currentFueling (nozzles (expire (AuthTimeout 0)
         (run [Command ''01'' ''BLOCK'', Command ''01'' ''AUTHORIZE''] init)) ! 0)
       = Some \<lparr>volume = 0, total_cost = 0, price = binary64 (589 / 100)\<rparr>"
proof -
  let ?es = "[Command ''01'' ''BLOCK'', Command ''01'' ''AUTHORIZE'',
        Expire (AuthTimeout 0), Expire (FuelInterval 0)]"
  let ?r = "run [Command ''01'' ''BLOCK'', Command ''01'' ''AUTHORIZE''] init"
  let ?f = "\<lparr>volume = 1 / 2, total_cost = binary64 (294 / 100), price = binary64 (589 / 100)\<rparr>"
  have c: "currentFueling (apiStatus (run ?es init) ! 0) = Some ?f"
    by (simp add: eval)
  have "length (apiStatus (run ?es init)) = 48"
    unfolding apiStatus_def by (rule length_reachable)
  then have m: "apiStatus (run ?es init) ! 0 \<in> set (apiStatus (run ?es init))"
    by (simp only: nth_mem)
  have r: "0 < length (nozzles ?r)" "AuthTimeout 0 \<in> set (timers ?r)" "status (nozzles ?r ! 0) = Ready"
    by (simp_all add: eval)
  note t = total_of_binary64_product [of ?es _ 0 ?r]
  from t m c have "total_cost ?f = Number_of_fixed2 (toFixed2 (js_mul (volume ?f) (price ?f)))"
    by blast
  then have "binary64 (294 / 100) = Number_of_fixed2 (toFixed2 (js_mul (1 / 2) (binary64 (589 / 100))))"
    by simp
  moreover from t r have "currentFueling (nozzles (expire (AuthTimeout 0) ?r) ! 0)
       = Some \<lparr>volume = 0, total_cost = 0, price = binary64 (589 / 100)\<rparr>"
    by blast
  ultimately show ?thesis using c r by blast
qed

end
